theory Spec2Isabelle
  imports Main
begin

section \<open>Data model (src/types.ts)\<close>

text \<open>
  The enums of \<^verbatim>\<open>types.ts\<close> are datatypes and its interfaces are records. An optional
  field \<^verbatim>\<open>x?: T\<close> is a field of type \<open>T option\<close>, with \<open>None\<close> for \<^verbatim>\<open>undefined\<close>.
  Field names that clash with a HOL constant or with a field of another record carry a
  suffix (\<open>id_f\<close>, \<open>name_f\<close>, \<open>size_f\<close> for \<^verbatim>\<open>HomeworkFile\<close>).
\<close>

datatype FileStatus = PENDING | PROCESSING | COMPLETED | ERROR

datatype ModelProvider = GEMINI | CUSTOM

record GradingDetailItem =
  name_d :: string
  score_d :: "string option"
  feedback_d :: "string option"

record GradingResult =
  score :: string
  maxScore :: string
  summary :: string
  strengths :: "string list"
  weaknesses :: "string list"
  suggestions :: string
  details :: "GradingDetailItem list option"

record HomeworkFile =
  id_f :: string
  name_f :: string
  type_f :: string
  size_f :: nat
  base64Data :: "string option"
  textContent :: "string option"
  status :: FileStatus
  result :: "GradingResult option"
  errorMessage :: "string option"

record AppSettings =
  apiKey :: string
  modelProvider :: ModelProvider
  customBaseUrl :: "string option"
  modelName :: string

text \<open>
  \<^verbatim>\<open>Partial<AppSettings>\<close>: every key may be missing. \<open>None\<close> is a missing key, \<open>Some v\<close> a
  key that is present with value \<open>v\<close>; for \<^verbatim>\<open>customBaseUrl\<close> the value itself may be
  \<^verbatim>\<open>undefined\<close>.
\<close>

record SettingsPatch =
  apiKey_p :: "string option"
  modelProvider_p :: "ModelProvider option"
  customBaseUrl_p :: "string option option"
  modelName_p :: "string option"

text \<open>
  The browser's \<^verbatim>\<open>File\<close> object handed to \<^verbatim>\<open>addFiles\<close>: the three properties the code
  reads, and the bytes that the extraction services read.
\<close>

record File =
  name_in :: string
  type_in :: string
  size_in :: nat
  bytes_in :: string

text \<open>
  What a \<^verbatim>\<open>catch\<close> clause can receive: an \<^verbatim>\<open>Error\<close> instance with its message, or any
  other thrown value.
\<close>

datatype thrown = ErrorObject string | OtherValue

section \<open>Constants (src/constants.ts)\<close>

text \<open>
  An entry of \<^verbatim>\<open>AVAILABLE_MODELS\<close>. The \<^verbatim>\<open>label\<close> of an entry is display text that no
  operation reads; it is left out.
\<close>

record ModelEntry =
  value_m :: string
  provider_m :: ModelProvider
  defaultBaseUrl :: "string option"

definition AVAILABLE_MODELS :: "ModelEntry list" where
  "AVAILABLE_MODELS =
    [\<lparr>value_m = ''gemini-2.5-flash'', provider_m = GEMINI, defaultBaseUrl = None\<rparr>,
     \<lparr>value_m = ''gemini-2.5-pro-preview'', provider_m = GEMINI, defaultBaseUrl = None\<rparr>,
     \<lparr>value_m = ''qwen-plus'', provider_m = CUSTOM,
       defaultBaseUrl = Some ''https://dashscope.aliyuncs.com/compatible-mode/v1''\<rparr>,
     \<lparr>value_m = ''qwen-vl-max'', provider_m = CUSTOM,
       defaultBaseUrl = Some ''https://dashscope.aliyuncs.com/compatible-mode/v1''\<rparr>,
     \<lparr>value_m = ''deepseek-ai/DeepSeek-V3'', provider_m = CUSTOM,
       defaultBaseUrl = Some ''https://api.siliconflow.cn/v1''\<rparr>,
     \<lparr>value_m = ''Qwen/Qwen2.5-VL-72B-Instruct'', provider_m = CUSTOM,
       defaultBaseUrl = Some ''https://api.siliconflow.cn/v1''\<rparr>]"

text \<open>
  \<^verbatim>\<open>DEFAULT_SETTINGS\<close>; its \<^verbatim>\<open>apiKey\<close> is \<^verbatim>\<open>process.env.API_KEY || ''\<close>, so the environment
  variable is a parameter (\<open>None\<close> when unset; the empty string is falsy as well).
\<close>

definition DEFAULT_SETTINGS :: "string option \<Rightarrow> AppSettings" where
  "DEFAULT_SETTINGS envApiKey =
    \<lparr>apiKey = (case envApiKey of None \<Rightarrow> [] | Some k \<Rightarrow> k),
     modelProvider = GEMINI,
     customBaseUrl = Some ''https://api.siliconflow.cn/v1'',
     modelName = ''gemini-2.5-flash''\<rparr>"

section \<open>The store of GradingProvider (src/App.tsx)\<close>

text \<open>
  The four \<^verbatim>\<open>useState\<close> cells of \<^verbatim>\<open>GradingProvider\<close>. Every setter call of the source is
  a function from the store to the updated store; the setters of \<^verbatim>\<open>files\<close> are all given
  an updater \<^verbatim>\<open>prev => ...\<close>, which React applies to the store as it is when the update
  runs.
\<close>

record store =
  files :: "HomeworkFile list"
  rubric :: string
  settings :: AppSettings
  isGrading :: bool

definition setFilesAppend :: "HomeworkFile list \<Rightarrow> store \<Rightarrow> store" where
  "setFilesAppend processedFiles st = st\<lparr>files := files st @ processedFiles\<rparr>"

definition removeFile :: "string \<Rightarrow> store \<Rightarrow> store" where
  "removeFile i st = st\<lparr>files := filter (\<lambda>f. id_f f \<noteq> i) (files st)\<rparr>"

definition updateFileStatus ::
  "string \<Rightarrow> FileStatus \<Rightarrow> GradingResult option \<Rightarrow> string option \<Rightarrow> store \<Rightarrow> store" where
  "updateFileStatus i s r e st =
    st\<lparr>files := map (\<lambda>f. if id_f f = i
                            then f\<lparr>status := s, result := r, errorMessage := e\<rparr>
                            else f) (files st)\<rparr>"

definition mergeSettings :: "AppSettings \<Rightarrow> SettingsPatch \<Rightarrow> AppSettings" where
  "mergeSettings prev newSettings =
    \<lparr>apiKey = (case apiKey_p newSettings of None \<Rightarrow> apiKey prev | Some v \<Rightarrow> v),
     modelProvider =
       (case modelProvider_p newSettings of None \<Rightarrow> modelProvider prev | Some v \<Rightarrow> v),
     customBaseUrl =
       (case customBaseUrl_p newSettings of None \<Rightarrow> customBaseUrl prev | Some v \<Rightarrow> v),
     modelName = (case modelName_p newSettings of None \<Rightarrow> modelName prev | Some v \<Rightarrow> v)\<rparr>"

definition updateSettings :: "SettingsPatch \<Rightarrow> store \<Rightarrow> store" where
  "updateSettings newSettings st = st\<lparr>settings := mergeSettings (settings st) newSettings\<rparr>"

definition setRubric :: "string \<Rightarrow> store \<Rightarrow> store" where
  "setRubric r st = st\<lparr>rubric := r\<rparr>"

definition setIsGrading :: "bool \<Rightarrow> store \<Rightarrow> store" where
  "setIsGrading b st = st\<lparr>isGrading := b\<rparr>"

text \<open>The store after the first render: the initial values given to \<^verbatim>\<open>useState\<close>.\<close>

definition initialStore :: "string \<Rightarrow> string option \<Rightarrow> store" where
  "initialStore defaultRubric envApiKey =
    \<lparr>files = [], rubric = defaultRubric, settings = DEFAULT_SETTINGS envApiKey,
     isGrading = False\<rparr>"

section \<open>Asynchronous operations\<close>

text \<open>
  An \<^verbatim>\<open>async\<close> function runs without interruption up to an \<^verbatim>\<open>await\<close>; while it is
  suspended, other handlers may update the store. Such an update is an \<open>action\<close>: one of
  the setter calls that exist in \<^verbatim>\<open>GradingProvider\<close>. An asynchronous operation is
  modelled by its trace: the list of stores after each update, its own and the
  interleaved ones, in the order in which they happen. The actions that arrive during a
  suspension are a parameter.
\<close>

datatype action =
    SetFilesAppend "HomeworkFile list"
  | RemoveFile string
  | UpdateFileStatus string FileStatus "GradingResult option" "string option"
  | UpdateSettings SettingsPatch
  | SetRubric string
  | SetIsGrading bool

fun applyAction :: "action \<Rightarrow> store \<Rightarrow> store" where
  "applyAction (SetFilesAppend processedFiles) st = setFilesAppend processedFiles st"
| "applyAction (RemoveFile i) st = removeFile i st"
| "applyAction (UpdateFileStatus i s r e) st = updateFileStatus i s r e st"
| "applyAction (UpdateSettings p) st = updateSettings p st"
| "applyAction (SetRubric r) st = setRubric r st"
| "applyAction (SetIsGrading b) st = setIsGrading b st"

fun runActions :: "action list \<Rightarrow> store \<Rightarrow> store list" where
  "runActions [] st = []"
| "runActions (a # as) st = applyAction a st # runActions as (applyAction a st)"

text \<open>The store at the end of a trace that started in \<open>st\<close>.\<close>

definition finalStore :: "store \<Rightarrow> store list \<Rightarrow> store" where
  "finalStore st tr = last (st # tr)"

subsection \<open>addFiles\<close>

text \<open>
  \<^verbatim>\<open>readFileAsBase64\<close> and \<^verbatim>\<open>extractTextFromFile\<close> live in \<^verbatim>\<open>services/fileService\<close>, which
  is not part of the sources; they are parameters. Each returns a promise, which either
  resolves to an optional string or rejects; \<^verbatim>\<open>await\<close> on a rejected promise throws
  (\<open>Inl\<close>). \<^verbatim>\<open>Math.random().toString(36).substr(2, 9)\<close> is a parameter too: \<open>draws k\<close> is
  the string that its \<open>k\<close>-th evaluation in this call yields.
\<close>

type_synonym extractor = "File \<Rightarrow> thrown + string option"

definition startsWithDot :: "string \<Rightarrow> bool" where
  "startsWithDot s = (case s of [] \<Rightarrow> False | c # _ \<Rightarrow> c = CHR ''.'')"

fun processFiles ::
  "extractor \<Rightarrow> extractor \<Rightarrow> (nat \<Rightarrow> string) \<Rightarrow> nat \<Rightarrow> File list \<Rightarrow> thrown + HomeworkFile list" where
  "processFiles readFileAsBase64 extractTextFromFile draws k [] = Inr []"
| "processFiles readFileAsBase64 extractTextFromFile draws k (f # fs) =
    (case readFileAsBase64 f of
       Inl e \<Rightarrow> Inl e
     | Inr b \<Rightarrow>
        (case extractTextFromFile f of
           Inl e \<Rightarrow> Inl e
         | Inr t \<Rightarrow>
            (case processFiles readFileAsBase64 extractTextFromFile draws (Suc k) fs of
               Inl e \<Rightarrow> Inl e
             | Inr rest \<Rightarrow>
                Inr (\<lparr>id_f = draws k, name_f = name_in f, type_f = type_in f,
                      size_f = size_in f, base64Data = b, textContent = t,
                      status = PENDING, result = None, errorMessage = None\<rparr> # rest))))"

text \<open>
  The only update of \<^verbatim>\<open>addFiles\<close> is its last statement, so the store argument is the
  store at that moment. A fault leaves the function before that statement: the result is
  \<open>Inl\<close> and no update is made.
\<close>

definition addFiles ::
  "extractor \<Rightarrow> extractor \<Rightarrow> (nat \<Rightarrow> string) \<Rightarrow> File list \<Rightarrow> store \<Rightarrow> thrown + store" where
  "addFiles readFileAsBase64 extractTextFromFile draws newFiles st =
    (let validFiles = filter (\<lambda>f. \<not> startsWithDot (name_in f)) newFiles in
     case processFiles readFileAsBase64 extractTextFromFile draws 0 validFiles of
       Inl e \<Rightarrow> Inl e
     | Inr processedFiles \<Rightarrow> Inr (setFilesAppend processedFiles st))"

subsection \<open>startBatchGrading and reGradeFile\<close>

text \<open>
  \<^verbatim>\<open>gradeHomework\<close> (\<^verbatim>\<open>services/geminiService\<close>, not part of the sources) is a parameter:
  given the file, the rubric and the settings, its promise resolves to a result (\<open>Inr\<close>)
  or rejects (\<open>Inl\<close>). Within one run its answer is a function of these arguments; different
  runs may be given different graders.
\<close>

type_synonym grader = "HomeworkFile \<Rightarrow> string \<Rightarrow> AppSettings \<Rightarrow> thrown + GradingResult"

definition errorText :: "thrown \<Rightarrow> string" where
  "errorText error = (case error of ErrorObject message \<Rightarrow> message | OtherValue \<Rightarrow> ''Unknown error'')"

text \<open>The two branches of the \<^verbatim>\<open>try\<close>/\<^verbatim>\<open>catch\<close> around \<^verbatim>\<open>gradeHomework\<close>.\<close>

definition settle :: "string \<Rightarrow> thrown + GradingResult \<Rightarrow> store \<Rightarrow> store" where
  "settle i outcome st =
    (case outcome of
       Inr r \<Rightarrow> updateFileStatus i COMPLETED (Some r) None st
     | Inl error \<Rightarrow> updateFileStatus i ERROR None (Some (errorText error)) st)"

text \<open>
  The \<^verbatim>\<open>for\<close> loop of \<^verbatim>\<open>startBatchGrading\<close> over \<^verbatim>\<open>filesToGrade\<close>. The loop body suspends at
  the 500 ms timer and at \<^verbatim>\<open>gradeHomework\<close>; \<open>env k\<close> are the actions that other handlers
  apply while iteration \<open>k\<close> is suspended. \<^verbatim>\<open>file\<close>, \<^verbatim>\<open>rubric\<close> and \<^verbatim>\<open>settings\<close> are the values
  captured by the closure, not those of the current store.
\<close>

fun gradeLoop ::
  "grader \<Rightarrow> string \<Rightarrow> AppSettings \<Rightarrow> (nat \<Rightarrow> action list) \<Rightarrow> nat \<Rightarrow> HomeworkFile list \<Rightarrow> store
    \<Rightarrow> store list" where
  "gradeLoop gradeHomework rub sets env k [] st = []"
| "gradeLoop gradeHomework rub sets env k (file # rest) st =
    (let s1 = updateFileStatus (id_f file) PROCESSING None None st;
         tr = runActions (env k) s1;
         s2 = settle (id_f file) (gradeHomework file rub sets) (finalStore s1 tr)
     in s1 # tr @ s2 # gradeLoop gradeHomework rub sets env (Suc k) rest s2)"

definition eligible :: "HomeworkFile \<Rightarrow> bool" where
  "eligible f = (status f = PENDING \<or> status f = ERROR)"

text \<open>
  \<^verbatim>\<open>files\<close>, \<^verbatim>\<open>rubric\<close> and \<^verbatim>\<open>settings\<close> inside \<^verbatim>\<open>startBatchGrading\<close> are the values of the
  render in which the handler was created: the store \<open>st\<close> at the call.
\<close>

definition startBatchGrading :: "grader \<Rightarrow> (nat \<Rightarrow> action list) \<Rightarrow> store \<Rightarrow> store list" where
  "startBatchGrading gradeHomework env st =
    (let s0 = setIsGrading True st;
         filesToGrade = filter eligible (files st);
         tr = gradeLoop gradeHomework (rubric st) (settings st) env 0 filesToGrade s0
     in s0 # tr @ [setIsGrading False (finalStore s0 tr)])"

text \<open>
  \<^verbatim>\<open>reGradeFile\<close> suspends once, at \<^verbatim>\<open>gradeHomework\<close>; \<open>env\<close> are the actions applied
  meanwhile. With no file of that id the function returns at once: the trace is empty.
\<close>

definition reGradeFile :: "grader \<Rightarrow> action list \<Rightarrow> string \<Rightarrow> store \<Rightarrow> store list" where
  "reGradeFile gradeHomework env i st =
    (case find (\<lambda>f. id_f f = i) (files st) of
       None \<Rightarrow> []
     | Some file \<Rightarrow>
        (let s1 = updateFileStatus i PROCESSING None None st;
             tr = runActions env s1
         in s1 # tr @
            [settle i (gradeHomework file (rubric st) (settings st)) (finalStore s1 tr)]))"

subsection \<open>The settings view\<close>

text \<open>
  \<^verbatim>\<open>handleProviderChange\<close> of \<^verbatim>\<open>SettingsView\<close>. \<^verbatim>\<open>a || b\<close> on an optional string takes \<^verbatim>\<open>b\<close>
  when \<^verbatim>\<open>a\<close> is \<^verbatim>\<open>undefined\<close> or empty.
\<close>

definition orElse :: "string option \<Rightarrow> string option \<Rightarrow> string option" where
  "orElse a b = (case a of None \<Rightarrow> b | Some s \<Rightarrow> if s = [] then b else Some s)"

definition handleProviderChange :: "ModelProvider \<Rightarrow> store \<Rightarrow> store" where
  "handleProviderChange provider st =
    (case filter (\<lambda>m. provider_m m = provider) AVAILABLE_MODELS of
       firstModel # _ \<Rightarrow>
         updateSettings
           \<lparr>apiKey_p = None, modelProvider_p = Some provider,
            customBaseUrl_p = Some (orElse (defaultBaseUrl firstModel) (customBaseUrl (settings st))),
            modelName_p = Some (value_m firstModel)\<rparr> st
     | [] \<Rightarrow>
         updateSettings
           \<lparr>apiKey_p = None, modelProvider_p = Some provider, customBaseUrl_p = None,
            modelName_p = None\<rparr> st)"

section \<open>Notions used in the statements\<close>

text \<open>
  What the second \<^verbatim>\<open>updateFileStatus\<close> call of a grading attempt makes of one file: the
  \<^verbatim>\<open>try\<close> branch stores the result, the \<^verbatim>\<open>catch\<close> branch the message.
\<close>

definition settleItem :: "thrown + GradingResult \<Rightarrow> HomeworkFile \<Rightarrow> HomeworkFile" where
  "settleItem outcome f =
    (case outcome of
       Inr r \<Rightarrow> f\<lparr>status := COMPLETED, result := Some r, errorMessage := None\<rparr>
     | Inl error \<Rightarrow> f\<lparr>status := ERROR, result := None, errorMessage := Some (errorText error)\<rparr>)"

text \<open>The interleaved updates that write the busy flag: those of another batch run.\<close>

fun setsIsGrading :: "action \<Rightarrow> bool" where
  "setsIsGrading (SetIsGrading b) = True"
| "setsIsGrading a = False"

text \<open>The files of a store whose id is not in a given set, in their order.\<close>

definition outside :: "string set \<Rightarrow> store \<Rightarrow> HomeworkFile list" where
  "outside E st = filter (\<lambda>f. id_f f \<notin> E) (files st)"

text \<open>
  The ids of the files that are Pending or Error in a store, and the updates that other
  handlers apply during a batch run started in that store: those of \<open>env 0\<close>, \<open>env 1\<close>, ... up
  to the number of iterations, in this order.
\<close>

definition eligibleIds :: "store \<Rightarrow> string set" where
  "eligibleIds st = id_f ` set (filter eligible (files st))"

definition interleaved :: "(nat \<Rightarrow> action list) \<Rightarrow> store \<Rightarrow> action list" where
  "interleaved env st = concat (map env [0..<length (filter eligible (files st))])"

text \<open>
  The item that \<open>addFiles\<close> builds for an input, given the id drawn for it and the two
  extracted contents.
\<close>

definition pendingItem :: "string \<Rightarrow> File \<Rightarrow> string option \<Rightarrow> string option \<Rightarrow> HomeworkFile" where
  "pendingItem i f b t =
    \<lparr>id_f = i, name_f = name_in f, type_f = type_in f, size_f = size_in f, base64Data = b,
     textContent = t, status = PENDING, result = None, errorMessage = None\<rparr>"

text \<open>The value a resolved promise carries (\<open>None\<close>, as for an absent value, if it rejected).\<close>

definition resolved :: "thrown + string option \<Rightarrow> string option" where
  "resolved p = (case p of Inl e \<Rightarrow> None | Inr v \<Rightarrow> v)"

definition rejects :: "thrown + string option \<Rightarrow> bool" where
  "rejects p = (case p of Inl e \<Rightarrow> True | Inr v \<Rightarrow> False)"

definition nonHidden :: "File list \<Rightarrow> File list" where
  "nonHidden newFiles = filter (\<lambda>f. \<not> startsWithDot (name_in f)) newFiles"

definition newItems :: "extractor \<Rightarrow> extractor \<Rightarrow> (nat \<Rightarrow> string) \<Rightarrow> File list \<Rightarrow> HomeworkFile list" where
  "newItems rd ex draws newFiles =
    map (\<lambda>(k, f). pendingItem (draws k) f (resolved (rd f)) (resolved (ex f)))
      (zip [0..<length (nonHidden newFiles)] (nonHidden newFiles))"

text \<open>
  A sequence of \<open>addFiles\<close> calls, each with its own random draws and inputs, in the order in
  which they complete. A call that throws makes no update; the calls after it still run.
\<close>

fun addFilesSeq ::
  "extractor \<Rightarrow> extractor \<Rightarrow> ((nat \<Rightarrow> string) \<times> File list) list \<Rightarrow> store \<Rightarrow> store" where
  "addFilesSeq rd ex [] st = st"
| "addFilesSeq rd ex ((draws, newFiles) # calls) st =
    (case addFiles rd ex draws newFiles st of
       Inl e \<Rightarrow> addFilesSeq rd ex calls st
     | Inr st' \<Rightarrow> addFilesSeq rd ex calls st')"

text \<open>
  The exclusivity invariant of an item: a result only on a Completed item, a message only on
  an Error item, never both. \<open>argsOK\<close> says the same of the arguments of an
  \<open>updateFileStatus\<close> call, \<open>actionOK\<close> of an interleaved update.
\<close>

definition itemInv :: "HomeworkFile \<Rightarrow> bool" where
  "itemInv f =
    ((result f \<noteq> None \<longrightarrow> status f = COMPLETED) \<and>
     (errorMessage f \<noteq> None \<longrightarrow> status f = ERROR) \<and>
     \<not> (result f \<noteq> None \<and> errorMessage f \<noteq> None))"

definition storeInv :: "store \<Rightarrow> bool" where
  "storeInv st = (\<forall>f\<in>set (files st). itemInv f)"

definition argsOK :: "FileStatus \<Rightarrow> GradingResult option \<Rightarrow> string option \<Rightarrow> bool" where
  "argsOK s r e = ((r \<noteq> None \<longrightarrow> s = COMPLETED) \<and> (e \<noteq> None \<longrightarrow> s = ERROR))"

fun actionOK :: "action \<Rightarrow> bool" where
  "actionOK (SetFilesAppend processedFiles) = (\<forall>f\<in>set processedFiles. itemInv f)"
| "actionOK (UpdateFileStatus i s r e) = argsOK s r e"
| "actionOK a = True"

text \<open>A model name that \<^verbatim>\<open>AVAILABLE_MODELS\<close> lists for a provider.\<close>

definition validModel :: "ModelProvider \<Rightarrow> string \<Rightarrow> bool" where
  "validModel provider n =
    (n \<in> set (map value_m (filter (\<lambda>m. provider_m m = provider) AVAILABLE_MODELS)))"

section \<open>Example data\<close>

text \<open>Concrete values on which the theorems below are instantiated.\<close>

definition exampleFile :: "string \<Rightarrow> FileStatus \<Rightarrow> HomeworkFile" where
  "exampleFile i s =
    \<lparr>id_f = i, name_f = i @ ''.txt'', type_f = ''text/plain'', size_f = 6,
     base64Data = None, textContent = Some ''answer'', status = s, result = None,
     errorMessage = None\<rparr>"

definition exampleResult :: GradingResult where
  "exampleResult =
    \<lparr>score = ''90'', maxScore = ''100'', summary = ''good'', strengths = [''clear''],
     weaknesses = [], suggestions = ''none'', details = None\<rparr>"

definition exampleStore :: "HomeworkFile list \<Rightarrow> store" where
  "exampleStore fs =
    \<lparr>files = fs, rubric = ''rubric'', settings = DEFAULT_SETTINGS None, isGrading = False\<rparr>"

definition scenarioD_grader :: grader where
  "scenarioD_grader file rub sets =
    (if id_f file = ''b'' then Inl (ErrorObject ''rate limited'') else Inr exampleResult)"

definition exampleInput :: "string \<Rightarrow> File" where
  "exampleInput n = \<lparr>name_in = n, type_in = ''text/plain'', size_in = 6, bytes_in = ''answer''\<rparr>"

definition exampleExtract :: extractor where
  "exampleExtract f = Inr (if type_in f = ''text/plain'' then Some (bytes_in f) else None)"

definition absentExtract :: extractor where
  "absentExtract f = Inr None"

definition failingExtract :: extractor where
  "failingExtract f =
    (if name_in f = ''bad.pdf'' then Inl (ErrorObject ''cannot read'') else Inr None)"

definition gradedFile :: HomeworkFile where
  "gradedFile = (exampleFile ''a'' COMPLETED)\<lparr>result := Some exampleResult\<rparr>"

text \<open>The patch \<^verbatim>\<open>{ modelProvider: provider }\<close>.\<close>

definition providerPatch :: "ModelProvider \<Rightarrow> SettingsPatch" where
  "providerPatch provider =
    \<lparr>apiKey_p = None, modelProvider_p = Some provider, customBaseUrl_p = None, modelName_p = None\<rparr>"

section \<open>Basic facts\<close>

lemma files_setFilesAppend [simp]: "files (setFilesAppend ps st) = files st @ ps"
  by (simp add: setFilesAppend_def)

lemma files_removeFile [simp]: "files (removeFile i st) = filter (\<lambda>f. id_f f \<noteq> i) (files st)"
  by (simp add: removeFile_def)

lemma files_updateFileStatus [simp]:
  "files (updateFileStatus i s r e st) =
    map (\<lambda>f. if id_f f = i then f\<lparr>status := s, result := r, errorMessage := e\<rparr> else f) (files st)"
  by (simp add: updateFileStatus_def)

lemma files_updateSettings [simp]: "files (updateSettings p st) = files st"
  by (simp add: updateSettings_def)

lemma files_setRubric [simp]: "files (setRubric r st) = files st"
  by (simp add: setRubric_def)

lemma files_setIsGrading [simp]: "files (setIsGrading b st) = files st"
  by (simp add: setIsGrading_def)

lemma finalStore_Nil [simp]: "finalStore st [] = st"
  by (simp add: finalStore_def)

lemma finalStore_Cons [simp]: "finalStore st (s # tr) = finalStore s tr"
  by (simp add: finalStore_def)

lemma finalStore_snoc [simp]: "finalStore st (tr @ [s]) = s"
  by (simp add: finalStore_def)

lemma finalStore_append_Cons [simp]: "finalStore st (tr @ s # tr') = finalStore s tr'"
  by (simp add: finalStore_def)

lemma finalStore_runActions: "finalStore st (runActions as st) = fold applyAction as st"
  by (induction as arbitrary: st) simp_all

lemma removeFile_unknown: "i \<notin> id_f ` set (files st) \<Longrightarrow> removeFile i st = st"
proof -
  assume "i \<notin> id_f ` set (files st)"
  then have "filter (\<lambda>f. id_f f \<noteq> i) (files st) = files st"
    by (auto simp: filter_id_conv)
  then show ?thesis by (simp add: removeFile_def)
qed

lemma updateFileStatus_unknown:
  assumes "i \<notin> id_f ` set (files st)"
  shows "updateFileStatus i s r e st = st"
proof -
  have "map (\<lambda>f. if id_f f = i then f\<lparr>status := s, result := r, errorMessage := e\<rparr> else f)
          (files st) = files st"
    using assms by (intro map_idI) auto
  then show ?thesis by (simp add: updateFileStatus_def)
qed

lemma reGradeFile_unknown:
  assumes "i \<notin> id_f ` set (files st)"
  shows "reGradeFile g env i st = []"
proof -
  have "find (\<lambda>f. id_f f = i) (files st) = None"
    using assms by (auto simp: find_None_iff)
  then show ?thesis by (simp add: reGradeFile_def)
qed

lemma removeFile_twice: "removeFile i (removeFile i st) = removeFile i st"
  by (simp add: removeFile_def)

section \<open>Operations on an unknown id\<close>

text \<open>
  C9. An id that no file of the store carries: \<open>removeFile\<close> and \<open>updateFileStatus\<close> return
  the store unchanged, and \<open>reGradeFile\<close> returns with an empty trace (no update at all,
  whatever happens meanwhile). None of the three has an error result. Removing the same id
  twice gives the store that removing it once gives.
\<close>

theorem unknown_id_noop:
  assumes "i \<notin> id_f ` set (files st)"
  shows "removeFile i st = st \<and>
         updateFileStatus i s r e st = st \<and>
         reGradeFile gradeHomework env i st = [] \<and>
         removeFile j (removeFile j st') = removeFile j st'"
  using assms
  by (simp add: removeFile_unknown updateFileStatus_unknown reGradeFile_unknown removeFile_twice)

text \<open>A store of one file, and an id that this file does not carry.\<close>

theorem unknown_id_noop_witness:
  "removeFile ''zz'' (exampleStore [exampleFile ''a'' PENDING]) = exampleStore [exampleFile ''a'' PENDING] \<and>
   updateFileStatus ''zz'' COMPLETED (Some exampleResult) None (exampleStore [exampleFile ''a'' PENDING])
     = exampleStore [exampleFile ''a'' PENDING] \<and>
   reGradeFile (\<lambda>f r s. Inr exampleResult) [] ''zz'' (exampleStore [exampleFile ''a'' PENDING]) = [] \<and>
   removeFile ''a'' (removeFile ''a'' (exampleStore [exampleFile ''a'' PENDING])) = exampleStore []"
proof -
  have h: "''zz'' \<notin> id_f ` set (files (exampleStore [exampleFile ''a'' PENDING]))"
    by (simp add: exampleStore_def exampleFile_def)
  have r: "removeFile ''a'' (exampleStore [exampleFile ''a'' PENDING]) = exampleStore []"
    by (simp add: removeFile_def exampleStore_def exampleFile_def)
  show ?thesis
    using unknown_id_noop [OF h, of COMPLETED "Some exampleResult" None "\<lambda>f r s. Inr exampleResult" "[]"
        "''a''" "exampleStore [exampleFile ''a'' PENDING]"]
    by (simp add: r)
qed

section \<open>A batch run without interleaved updates\<close>

lemma id_f_settleItem [simp]: "id_f (settleItem outcome f) = id_f f"
  by (simp add: settleItem_def split: sum.splits)

lemma files_settle:
  "files (settle i outcome st) = map (\<lambda>f. if id_f f = i then settleItem outcome f else f) (files st)"
  by (simp add: settle_def settleItem_def split: sum.splits)

lemma settleItem_overwrites [simp]:
  "settleItem outcome (f\<lparr>status := s, result := r, errorMessage := e\<rparr>) = settleItem outcome f"
  by (simp add: settleItem_def split: sum.splits)

lemma files_settle_processing:
  "files (settle i outcome (updateFileStatus i PROCESSING None None st)) =
    map (\<lambda>f. if id_f f = i then settleItem outcome f else f) (files st)"
  by (simp add: files_settle o_def)

lemma gradeLoop_quiet_files:
  assumes "distinct (map id_f fs)"
  shows "files (finalStore st (gradeLoop g rub sets (\<lambda>k. []) k fs st)) =
    map (\<lambda>x. case find (\<lambda>f. id_f f = id_f x) fs of
               None \<Rightarrow> x
             | Some f \<Rightarrow> settleItem (g f rub sets) x) (files st)"
  using assms
proof (induction fs arbitrary: st k)
  case Nil
  then show ?case by simp
next
  case (Cons f fs)
  let ?s2 = "settle (id_f f) (g f rub sets) (updateFileStatus (id_f f) PROCESSING None None st)"
  have d: "distinct (map id_f fs)" and "id_f f \<notin> id_f ` set fs"
    using Cons.prems by simp_all
  then have notin: "\<forall>x\<in>set fs. id_f x \<noteq> id_f f"
    by (metis imageI)
  have none: "find (\<lambda>f'. id_f f' = id_f f) fs = None"
    using notin by (simp add: find_None_iff)
  have "files (finalStore st (gradeLoop g rub sets (\<lambda>k. []) k (f # fs) st)) =
        files (finalStore ?s2 (gradeLoop g rub sets (\<lambda>k. []) (Suc k) fs ?s2))"
    by (simp add: Let_def)
  also have "\<dots> = map (\<lambda>x. case find (\<lambda>f. id_f f = id_f x) fs of
               None \<Rightarrow> x | Some f \<Rightarrow> settleItem (g f rub sets) x) (files ?s2)"
    by (rule Cons.IH [OF d])
  also have "\<dots> = map (\<lambda>x. case find (\<lambda>f. id_f f = id_f x) (f # fs) of
               None \<Rightarrow> x | Some f \<Rightarrow> settleItem (g f rub sets) x) (files st)"
    by (simp add: files_settle_processing o_def none)
  finally show ?case .
qed

lemma find_filter_distinct:
  assumes "distinct (map id_f xs)" and "x \<in> set xs"
  shows "find (\<lambda>f. id_f f = id_f x) (filter P xs) = (if P x then Some x else None)"
  using assms
proof (induction xs)
  case Nil
  then show ?case by simp
next
  case (Cons y ys)
  then show ?case
    by (auto simp: find_None_iff image_iff)
qed

lemma startBatch_quiet_files:
  assumes "distinct (map id_f (files st))"
  shows "files (finalStore st (startBatchGrading gradeHomework (\<lambda>k. []) st)) =
    map (\<lambda>f. if eligible f then settleItem (gradeHomework f (rubric st) (settings st)) f else f)
      (files st)"
proof -
  have d: "distinct (map id_f (filter eligible (files st)))"
    using assms by (simp add: distinct_map_filter)
  have "files (finalStore st (startBatchGrading gradeHomework (\<lambda>k. []) st)) =
        files (finalStore (setIsGrading True st)
          (gradeLoop gradeHomework (rubric st) (settings st) (\<lambda>k. []) 0
             (filter eligible (files st)) (setIsGrading True st)))"
    by (simp add: startBatchGrading_def Let_def)
  also have "\<dots> = map (\<lambda>x. case find (\<lambda>f. id_f f = id_f x) (filter eligible (files st)) of
               None \<Rightarrow> x
             | Some f \<Rightarrow> settleItem (gradeHomework f (rubric st) (settings st)) x) (files st)"
    using gradeLoop_quiet_files [OF d] by simp
  also have "\<dots> = map (\<lambda>f. if eligible f
                then settleItem (gradeHomework f (rubric st) (settings st)) f else f) (files st)"
    by (rule map_cong) (simp_all add: find_filter_distinct [OF assms])
  finally show ?thesis .
qed

section \<open>Regrading one file\<close>

lemma find_distinct_id:
  assumes "distinct (map id_f xs)" and "x \<in> set xs"
  shows "find (\<lambda>f. id_f f = id_f x) xs = Some x"
  using find_filter_distinct [OF assms, of "\<lambda>f. True"] by simp

lemma find_existing_id:
  assumes "x \<in> set xs"
  shows "\<exists>file. find (\<lambda>f. id_f f = id_f x) xs = Some file \<and> id_f file = id_f x"
proof (cases "find (\<lambda>f. id_f f = id_f x) xs")
  case None
  then show ?thesis using assms by (auto simp: find_None_iff)
next
  case (Some fl)
  then have "id_f fl = id_f x" by (auto simp: find_Some_iff)
  with Some show ?thesis by simp
qed



section \<open>The busy flag\<close>

lemma isGrading_updateFileStatus [simp]: "isGrading (updateFileStatus i s r e st) = isGrading st"
  by (simp add: updateFileStatus_def)

lemma isGrading_settle [simp]: "isGrading (settle i outcome st) = isGrading st"
  by (simp add: settle_def split: sum.splits)

lemma isGrading_applyAction: "\<not> setsIsGrading a \<Longrightarrow> isGrading (applyAction a st) = isGrading st"
  by (cases a) (simp_all add: setFilesAppend_def removeFile_def updateSettings_def setRubric_def)

lemma isGrading_runActions:
  assumes "\<forall>a\<in>set as. \<not> setsIsGrading a"
  shows "\<forall>s\<in>set (runActions as st). isGrading s = isGrading st"
  using assms by (induction as arbitrary: st) (simp_all add: isGrading_applyAction)

lemma finalStore_in_trace: "finalStore st tr = st \<or> finalStore st tr \<in> set tr"
  by (cases tr rule: rev_cases) simp_all

lemma isGrading_finalStore:
  assumes "\<forall>s\<in>set tr. isGrading s = isGrading st"
  shows "isGrading (finalStore st tr) = isGrading st"
  using assms finalStore_in_trace [of st tr] by auto

lemma isGrading_gradeLoop:
  assumes "\<forall>k. \<forall>a\<in>set (env k). \<not> setsIsGrading a"
  shows "\<forall>s\<in>set (gradeLoop g rub sets env k fs st). isGrading s = isGrading st"
proof (induction fs arbitrary: st k)
  case Nil
  then show ?case by simp
next
  case (Cons f fs)
  let ?s1 = "updateFileStatus (id_f f) PROCESSING None None st"
  let ?tr = "runActions (env k) ?s1"
  let ?s2 = "settle (id_f f) (g f rub sets) (finalStore ?s1 ?tr)"
  have tr: "\<forall>s\<in>set ?tr. isGrading s = isGrading st"
    using isGrading_runActions [of "env k" ?s1] assms by simp
  then have "isGrading (finalStore ?s1 ?tr) = isGrading ?s1"
    by (intro isGrading_finalStore) simp
  then have s2: "isGrading ?s2 = isGrading st" by simp
  have "\<forall>s\<in>set (gradeLoop g rub sets env (Suc k) fs ?s2). isGrading s = isGrading st"
    using Cons.IH [of "Suc k" ?s2] s2 by simp
  with tr s2 show ?case by (auto simp: Let_def)
qed

lemma isGrading_reGradeFile:
  assumes "\<forall>a\<in>set env. \<not> setsIsGrading a"
  shows "\<forall>s\<in>set (reGradeFile g env i st). isGrading s = isGrading st"
proof (cases "find (\<lambda>f. id_f f = i) (files st)")
  case None
  then show ?thesis by (simp add: reGradeFile_def)
next
  case (Some fl)
  let ?s1 = "updateFileStatus i PROCESSING None None st"
  let ?tr = "runActions env ?s1"
  have tr: "\<forall>s\<in>set ?tr. isGrading s = isGrading st"
    using isGrading_runActions [OF assms, of ?s1] by simp
  then have "isGrading (finalStore ?s1 ?tr) = isGrading ?s1"
    by (intro isGrading_finalStore) simp
  with tr Some show ?thesis by (auto simp: reGradeFile_def Let_def)
qed

lemma isGrading_addFiles: "addFiles rd ex draws newFiles st = Inr st' \<Longrightarrow> isGrading st' = isGrading st"
  by (auto simp: addFiles_def Let_def setFilesAppend_def split: sum.splits)

lemma startBatch_trace_shape:
  "startBatchGrading g env st =
     (setIsGrading True st #
       gradeLoop g (rubric st) (settings st) env 0 (filter eligible (files st)) (setIsGrading True st)) @
     [setIsGrading False (finalStore (setIsGrading True st)
        (gradeLoop g (rubric st) (settings st) env 0 (filter eligible (files st)) (setIsGrading True st)))]"
  by (simp add: startBatchGrading_def Let_def)

lemma startBatch_flag:
  assumes "\<forall>k. \<forall>a\<in>set (env k). \<not> setsIsGrading a"
  shows "(\<forall>s\<in>set (butlast (startBatchGrading g env st)). isGrading s) \<and>
         \<not> isGrading (last (startBatchGrading g env st)) \<and>
         last (startBatchGrading g env st) =
           setIsGrading False (last (butlast (startBatchGrading g env st)))"
proof -
  let ?s0 = "setIsGrading True st"
  let ?tr = "gradeLoop g (rubric st) (settings st) env 0 (filter eligible (files st)) ?s0"
  have shape: "startBatchGrading g env st = (?s0 # ?tr) @ [setIsGrading False (finalStore ?s0 ?tr)]"
    by (rule startBatch_trace_shape)
  have "\<forall>s\<in>set ?tr. isGrading s = isGrading ?s0"
    by (rule isGrading_gradeLoop [OF assms])
  then have "\<forall>s\<in>set (?s0 # ?tr). isGrading s"
    by (simp add: setIsGrading_def)
  moreover have "last (?s0 # ?tr) = finalStore ?s0 ?tr"
    by (simp add: finalStore_def)
  ultimately show ?thesis
    unfolding shape butlast_snoc last_snoc by (simp add: setIsGrading_def)
qed

lemma startBatch_quiet_terminal:
  assumes "distinct (map id_f (files st))"
  shows "list_all2 (\<lambda>f f'. id_f f' = id_f f \<and> (eligible f \<longrightarrow> status f' = COMPLETED \<or> status f' = ERROR))
           (files st) (files (finalStore st (startBatchGrading g (\<lambda>k. []) st)))"
  unfolding startBatch_quiet_files [OF assms] list_all2_map2
  by (rule list_all2_refl) (simp add: settleItem_def split: sum.splits)

text \<open>
  C4. The trace of a batch run during which no other handler writes \<open>isGrading\<close> (the only
  writes in the source are the two of \<open>startBatchGrading\<close>, and its only call site is a
  button that is disabled while the flag is set): the flag is true in every store of the
  trace but the last, and false in the last, which is the store just before it with the
  flag reset. Without interleaved updates and with distinct ids, every file that was
  Pending or Error at the call is Completed or Error in that final store. \<open>reGradeFile\<close> leaves
  the flag as it finds it in every store of its trace, so does every other update, and the
  flag is false in the initial store.
\<close>

theorem isGrading_spans_batch:
  assumes "\<forall>k. \<forall>a\<in>set (env k). \<not> setsIsGrading a" and "\<forall>a\<in>set env'. \<not> setsIsGrading a"
  shows "(\<forall>s\<in>set (butlast (startBatchGrading gradeHomework env st)). isGrading s) \<and>
         \<not> isGrading (last (startBatchGrading gradeHomework env st)) \<and>
         last (startBatchGrading gradeHomework env st) =
           setIsGrading False (last (butlast (startBatchGrading gradeHomework env st))) \<and>
         (distinct (map id_f (files st)) \<longrightarrow>
           list_all2 (\<lambda>f f'. id_f f' = id_f f \<and>
                        (eligible f \<longrightarrow> status f' = COMPLETED \<or> status f' = ERROR))
             (files st) (files (finalStore st (startBatchGrading gradeHomework (\<lambda>k. []) st)))) \<and>
         (\<forall>s\<in>set (reGradeFile gradeHomework env' i st'). isGrading s = isGrading st') \<and>
         (\<forall>a\<in>set env'. isGrading (applyAction a st') = isGrading st') \<and>
         \<not> isGrading (initialStore defaultRubric envApiKey)"
proof -
  have "\<forall>a\<in>set env'. isGrading (applyAction a st') = isGrading st'"
    using assms(2) by (simp add: isGrading_applyAction)
  moreover have "\<not> isGrading (initialStore defaultRubric envApiKey)"
    by (simp add: initialStore_def)
  ultimately show ?thesis
    using startBatch_flag [OF assms(1)] isGrading_reGradeFile [OF assms(2)]
      startBatch_quiet_terminal
    by blast
qed

text \<open>
  A batch over a Pending and an Error file while a third file is added, and a regrade
  during which a file is removed.
\<close>

theorem isGrading_spans_batch_witness:
  "map isGrading (startBatchGrading scenarioD_grader
      (\<lambda>k. if k = 0 then [SetFilesAppend [exampleFile ''d'' PENDING]] else [])
      (exampleStore [exampleFile ''a'' PENDING, exampleFile ''b'' ERROR]))
     = [True, True, True, True, True, True, False] \<and>
   map status (files (last (startBatchGrading scenarioD_grader
      (\<lambda>k. if k = 0 then [SetFilesAppend [exampleFile ''d'' PENDING]] else [])
      (exampleStore [exampleFile ''a'' PENDING, exampleFile ''b'' ERROR]))))
     = [COMPLETED, ERROR, PENDING] \<and>
   map isGrading (reGradeFile scenarioD_grader [RemoveFile ''b'']
      ''a'' (exampleStore [exampleFile ''a'' PENDING, exampleFile ''b'' ERROR]))
     = [False, False, False]"
proof -
  have h1: "\<forall>k. \<forall>a\<in>set (if k = 0 then [SetFilesAppend [exampleFile ''d'' PENDING]] else []).
              \<not> setsIsGrading a"
    by simp
  have h2: "\<forall>a\<in>set [RemoveFile ''b'']. \<not> setsIsGrading a"
    by simp
  show ?thesis
    using isGrading_spans_batch [OF h1 h2, of scenarioD_grader
        "exampleStore [exampleFile ''a'' PENDING, exampleFile ''b'' ERROR]" "''a''"
        "exampleStore [exampleFile ''a'' PENDING, exampleFile ''b'' ERROR]"]
    by (simp add: startBatchGrading_def reGradeFile_def Let_def exampleStore_def exampleFile_def
        eligible_def settle_def scenarioD_grader_def errorText_def updateFileStatus_def
        setIsGrading_def setFilesAppend_def removeFile_def finalStore_def)
qed

section \<open>The files a batch run leaves alone\<close>

lemma filter_map_invariant:
  assumes "\<And>x. P (h x) = P x"
  shows "filter P (map h xs) = map h (filter P xs)"
  by (induction xs) (simp_all add: assms)

lemma filter_swap: "filter P (filter Q xs) = filter Q (filter P xs)"
  by (induction xs) simp_all

lemma outside_updateFileStatus:
  "outside E (updateFileStatus i s r e st) =
    map (\<lambda>f. if id_f f = i then f\<lparr>status := s, result := r, errorMessage := e\<rparr> else f) (outside E st)"
  unfolding outside_def files_updateFileStatus
  by (rule filter_map_invariant) simp

lemma outside_updateFileStatus_in:
  assumes "i \<in> E"
  shows "outside E (updateFileStatus i s r e st) = outside E st"
proof -
  have "\<forall>f\<in>set (outside E st). id_f f \<noteq> i"
    using assms by (auto simp: outside_def)
  then show ?thesis
    unfolding outside_updateFileStatus by (intro map_idI) simp
qed

lemma outside_settle_in: "i \<in> E \<Longrightarrow> outside E (settle i outcome st) = outside E st"
  by (simp add: settle_def outside_updateFileStatus_in split: sum.splits)

lemma outside_setIsGrading [simp]: "outside E (setIsGrading b st) = outside E st"
  by (simp add: outside_def)

lemma outside_removeFile:
  "outside E (removeFile i st) = filter (\<lambda>f. id_f f \<noteq> i) (outside E st)"
  unfolding outside_def files_removeFile by (rule filter_swap)

lemma outside_setFilesAppend:
  "outside E (setFilesAppend ps st) = outside E st @ filter (\<lambda>f. id_f f \<notin> E) ps"
  by (simp add: outside_def)

lemma outside_applyAction:
  assumes "outside E s = outside E s'"
  shows "outside E (applyAction a s) = outside E (applyAction a s')"
proof (cases a)
  case (SetFilesAppend ps)
  then show ?thesis using assms by (simp add: outside_setFilesAppend)
next
  case (RemoveFile i)
  then show ?thesis using assms by (simp add: outside_removeFile)
next
  case (UpdateFileStatus i s r e)
  then show ?thesis using assms by (simp add: outside_updateFileStatus)
next
  case (UpdateSettings p)
  then show ?thesis using assms by (simp add: outside_def)
next
  case (SetRubric r)
  then show ?thesis using assms by (simp add: outside_def)
next
  case (SetIsGrading b)
  then show ?thesis using assms by simp
qed

lemma outside_fold:
  "outside E s = outside E s' \<Longrightarrow> outside E (fold applyAction as s) = outside E (fold applyAction as s')"
proof (induction as arbitrary: s s')
  case Nil
  then show ?case by simp
next
  case (Cons a as)
  have "outside E (applyAction a s) = outside E (applyAction a s')"
    using Cons.prems by (rule outside_applyAction)
  then have "outside E (fold applyAction as (applyAction a s)) =
             outside E (fold applyAction as (applyAction a s'))"
    by (rule Cons.IH)
  then show ?case by simp
qed

lemma outside_runActions:
  assumes "outside E s = outside E s'"
  shows "\<forall>t\<in>set (runActions as s). \<exists>n\<le>length as. outside E t = outside E (fold applyAction (take n as) s')"
  using assms
proof (induction as arbitrary: s s')
  case Nil
  then show ?case by simp
next
  case (Cons a as)
  have step: "outside E (applyAction a s) = outside E (applyAction a s')"
    using Cons.prems by (rule outside_applyAction)
  show ?case
  proof
    fix t assume "t \<in> set (runActions (a # as) s)"
    then consider "t = applyAction a s" | "t \<in> set (runActions as (applyAction a s))"
      by auto
    then show "\<exists>n\<le>length (a # as). outside E t = outside E (fold applyAction (take n (a # as)) s')"
    proof cases
      case 1
      then have "outside E t = outside E (fold applyAction (take (Suc 0) (a # as)) s')"
        using step by simp
      then show ?thesis by (intro exI [of _ "Suc 0"]) simp
    next
      case 2
      then obtain n where "n \<le> length as"
        and "outside E t = outside E (fold applyAction (take n as) (applyAction a s'))"
        using Cons.IH [OF step] by blast
      then show ?thesis by (intro exI [of _ "Suc n"]) simp
    qed
  qed
qed

lemma gradeLoop_outside_final:
  assumes "id_f ` set fs \<subseteq> E" and "outside E s = outside E s'"
  shows "outside E (finalStore s (gradeLoop g rub sets env k fs s)) =
         outside E (fold applyAction (concat (map env [k..<k + length fs])) s')"
  using assms
proof (induction fs arbitrary: s s' k)
  case Nil
  then show ?case by simp
next
  case (Cons f fs)
  let ?s1 = "updateFileStatus (id_f f) PROCESSING None None s"
  let ?s2 = "settle (id_f f) (g f rub sets) (finalStore ?s1 (runActions (env k) ?s1))"
  have inE: "id_f f \<in> E" and sub: "id_f ` set fs \<subseteq> E"
    using Cons.prems(1) by auto
  have s1: "outside E ?s1 = outside E s'"
    using inE Cons.prems(2) by (simp add: outside_updateFileStatus_in)
  have "outside E (finalStore ?s1 (runActions (env k) ?s1)) = outside E (fold applyAction (env k) s')"
    unfolding finalStore_runActions using s1 by (rule outside_fold)
  then have s2: "outside E ?s2 = outside E (fold applyAction (env k) s')"
    using inE by (simp add: outside_settle_in)
  have idx: "[k..<k + length (f # fs)] = k # [Suc k..<Suc k + length fs]"
    by (simp add: upt_rec)
  have "outside E (finalStore s (gradeLoop g rub sets env k (f # fs) s)) =
        outside E (finalStore ?s2 (gradeLoop g rub sets env (Suc k) fs ?s2))"
    by (simp add: Let_def)
  also have "\<dots> = outside E (fold applyAction (concat (map env [Suc k..<Suc k + length fs]))
                       (fold applyAction (env k) s'))"
    by (rule Cons.IH [OF sub s2])
  also have "\<dots> = outside E (fold applyAction (concat (map env [k..<k + length (f # fs)])) s')"
    unfolding idx by simp
  finally show ?case .
qed

lemma gradeLoop_outside_trace:
  assumes "id_f ` set fs \<subseteq> E" and "outside E s = outside E s'"
  shows "\<forall>t\<in>set (gradeLoop g rub sets env k fs s).
           \<exists>n. outside E t = outside E (fold applyAction (take n (concat (map env [k..<k + length fs]))) s')"
  using assms
proof (induction fs arbitrary: s s' k)
  case Nil
  then show ?case by simp
next
  case (Cons f fs)
  let ?s1 = "updateFileStatus (id_f f) PROCESSING None None s"
  let ?tr = "runActions (env k) ?s1"
  let ?s2 = "settle (id_f f) (g f rub sets) (finalStore ?s1 ?tr)"
  let ?rest = "concat (map env [Suc k..<Suc k + length fs])"
  have inE: "id_f f \<in> E" and sub: "id_f ` set fs \<subseteq> E"
    using Cons.prems(1) by auto
  have s1: "outside E ?s1 = outside E s'"
    using inE Cons.prems(2) by (simp add: outside_updateFileStatus_in)
  have "outside E (finalStore ?s1 ?tr) = outside E (fold applyAction (env k) s')"
    unfolding finalStore_runActions using s1 by (rule outside_fold)
  then have s2: "outside E ?s2 = outside E (fold applyAction (env k) s')"
    using inE by (simp add: outside_settle_in)
  have idx: "concat (map env [k..<k + length (f # fs)]) = env k @ ?rest"
    by (simp add: upt_rec)
  show ?case
    unfolding idx
  proof
    fix t assume "t \<in> set (gradeLoop g rub sets env k (f # fs) s)"
    then consider "t = ?s1" | "t \<in> set ?tr" | "t = ?s2"
      | "t \<in> set (gradeLoop g rub sets env (Suc k) fs ?s2)"
      by (auto simp: Let_def)
    then show "\<exists>n. outside E t = outside E (fold applyAction (take n (env k @ ?rest)) s')"
    proof cases
      case 1
      then show ?thesis using s1 by (intro exI [of _ 0]) simp
    next
      case 2
      then obtain n where "n \<le> length (env k)"
        and "outside E t = outside E (fold applyAction (take n (env k)) s')"
        using outside_runActions [OF s1, of "env k"] by blast
      then show ?thesis by (intro exI [of _ n]) simp
    next
      case 3
      then show ?thesis using s2 by (intro exI [of _ "length (env k)"]) simp
    next
      case 4
      then obtain n where
        "outside E t = outside E (fold applyAction (take n ?rest) (fold applyAction (env k) s'))"
        using Cons.IH [OF sub s2, of "Suc k"] by blast
      then show ?thesis by (intro exI [of _ "length (env k) + n"]) simp
    qed
  qed
qed

lemma eligibleIds_distinct:
  assumes "distinct (map id_f (files st))" and "f \<in> set (files st)"
  shows "id_f f \<in> eligibleIds st \<longleftrightarrow> eligible f"
proof
  assume "id_f f \<in> eligibleIds st"
  then obtain x where x: "x \<in> set (files st)" "eligible x" "id_f x = id_f f"
    by (auto simp: eligibleIds_def)
  then have "x = f"
    using assms by (meson distinct_map inj_onD)
  with x show "eligible f" by simp
next
  assume "eligible f"
  then show "id_f f \<in> eligibleIds st"
    using assms(2) by (auto simp: eligibleIds_def)
qed



section \<open>Failure isolation in a batch\<close>

lemma outside_updateFileStatus_cong:
  assumes "outside D s = outside D s'"
  shows "outside D (updateFileStatus i x r e s) = outside D (updateFileStatus i x r e s')"
  using outside_applyAction [OF assms, of "UpdateFileStatus i x r e"] by simp

lemma outside_settle_cong:
  assumes "outside D s = outside D s'"
  shows "outside D (settle i outcome s) = outside D (settle i outcome s')"
proof (cases outcome)
  case (Inl error)
  show ?thesis
    unfolding Inl settle_def sum.case using assms by (rule outside_updateFileStatus_cong)
next
  case (Inr r)
  show ?thesis
    unfolding Inr settle_def sum.case using assms by (rule outside_updateFileStatus_cong)
qed

lemma gradeLoop_isolation:
  assumes "\<forall>f\<in>set fs. id_f f \<notin> D \<longrightarrow> g f rub sets = g' f rub sets"
    and "outside D s = outside D s'"
  shows "outside D (finalStore s (gradeLoop g rub sets env k fs s)) =
         outside D (finalStore s' (gradeLoop g' rub sets env k fs s'))"
  using assms
proof (induction fs arbitrary: s s' k)
  case Nil
  then show ?case by simp
next
  case (Cons f fs)
  let ?p = "updateFileStatus (id_f f) PROCESSING None None s"
  let ?p' = "updateFileStatus (id_f f) PROCESSING None None s'"
  let ?q = "finalStore ?p (runActions (env k) ?p)"
  let ?q' = "finalStore ?p' (runActions (env k) ?p')"
  let ?s2 = "settle (id_f f) (g f rub sets) ?q"
  let ?s2' = "settle (id_f f) (g' f rub sets) ?q'"
  have rest: "\<forall>f\<in>set fs. id_f f \<notin> D \<longrightarrow> g f rub sets = g' f rub sets"
    using Cons.prems(1) by simp
  have "outside D ?p = outside D ?p'"
    using Cons.prems(2) by (rule outside_updateFileStatus_cong)
  then have q: "outside D ?q = outside D ?q'"
    unfolding finalStore_runActions by (rule outside_fold)
  have s2: "outside D ?s2 = outside D ?s2'"
  proof (cases "id_f f \<in> D")
    case True
    then show ?thesis using q by (simp add: outside_settle_in)
  next
    case False
    then have same: "g f rub sets = g' f rub sets"
      using Cons.prems(1) by simp
    show ?thesis
      unfolding same using q by (rule outside_settle_cong)
  qed
  have "outside D (finalStore s (gradeLoop g rub sets env k (f # fs) s)) =
        outside D (finalStore ?s2 (gradeLoop g rub sets env (Suc k) fs ?s2))"
    by (simp add: Let_def)
  also have "\<dots> = outside D (finalStore ?s2' (gradeLoop g' rub sets env (Suc k) fs ?s2'))"
    using rest s2 by (rule Cons.IH)
  also have "\<dots> = outside D (finalStore s' (gradeLoop g' rub sets env k (f # fs) s'))"
    by (simp add: Let_def)
  finally show ?case .
qed

lemma startBatch_isolation:
  assumes "\<forall>f\<in>set (files st). id_f f \<notin> D \<longrightarrow> g f (rubric st) (settings st) = g' f (rubric st) (settings st)"
  shows "outside D (finalStore st (startBatchGrading g env st)) =
         outside D (finalStore st (startBatchGrading g' env st))"
proof -
  let ?s0 = "setIsGrading True st"
  let ?fs = "filter eligible (files st)"
  have "\<forall>f\<in>set ?fs. id_f f \<notin> D \<longrightarrow> g f (rubric st) (settings st) = g' f (rubric st) (settings st)"
    using assms by simp
  then have "outside D (finalStore ?s0 (gradeLoop g (rubric st) (settings st) env 0 ?fs ?s0)) =
        outside D (finalStore ?s0 (gradeLoop g' (rubric st) (settings st) env 0 ?fs ?s0))"
    by (rule gradeLoop_isolation) simp
  then show ?thesis
    unfolding startBatch_trace_shape by simp
qed



section \<open>Adding files\<close>

lemma processFiles_ok:
  assumes "\<forall>f\<in>set fs. \<not> rejects (rd f) \<and> \<not> rejects (ex f)"
  shows "processFiles rd ex draws k fs =
    Inr (map (\<lambda>(j, f). pendingItem (draws j) f (resolved (rd f)) (resolved (ex f)))
          (zip [k..<k + length fs] fs))"
  using assms
proof (induction fs arbitrary: k)
  case Nil
  then show ?case by simp
next
  case (Cons f fs)
  have idx: "[k..<k + length (f # fs)] = k # [Suc k..<Suc k + length fs]"
    by (simp add: upt_rec)
  have "\<not> rejects (rd f)" "\<not> rejects (ex f)"
    using Cons.prems by simp_all
  then obtain b t where bt: "rd f = Inr b" "ex f = Inr t"
    by (auto simp: rejects_def split: sum.splits)
  have "processFiles rd ex draws (Suc k) fs =
    Inr (map (\<lambda>(j, f). pendingItem (draws j) f (resolved (rd f)) (resolved (ex f)))
          (zip [Suc k..<Suc k + length fs] fs))"
    using Cons.prems by (intro Cons.IH) simp
  then show ?case
    unfolding idx by (simp add: bt resolved_def pendingItem_def)
qed

lemma processFiles_fault:
  assumes "\<exists>f\<in>set fs. rejects (rd f) \<or> rejects (ex f)"
  shows "\<exists>e. processFiles rd ex draws k fs = Inl e"
  using assms
proof (induction fs arbitrary: k)
  case Nil
  then show ?case by simp
next
  case (Cons f fs)
  show ?case
  proof (cases "rejects (rd f) \<or> rejects (ex f)")
    case True
    then show ?thesis by (auto simp: rejects_def split: sum.splits)
  next
    case False
    then have "\<exists>f\<in>set fs. rejects (rd f) \<or> rejects (ex f)"
      using Cons.prems by auto
    then obtain e where "processFiles rd ex draws (Suc k) fs = Inl e"
      using Cons.IH by blast
    then show ?thesis by (simp split: sum.splits)
  qed
qed

lemma addFiles_ok:
  assumes "\<forall>f\<in>set (nonHidden newFiles). \<not> rejects (rd f) \<and> \<not> rejects (ex f)"
  shows "addFiles rd ex draws newFiles st = Inr (setFilesAppend (newItems rd ex draws newFiles) st)"
  using processFiles_ok [OF assms, of draws 0]
  by (simp add: addFiles_def Let_def newItems_def nonHidden_def)

lemma addFiles_fault:
  assumes "\<exists>f\<in>set (nonHidden newFiles). rejects (rd f) \<or> rejects (ex f)"
  shows "\<exists>e. addFiles rd ex draws newFiles st = Inl e"
proof -
  obtain e where "processFiles rd ex draws 0 (nonHidden newFiles) = Inl e"
    using processFiles_fault [OF assms] by blast
  then show ?thesis by (simp add: addFiles_def Let_def nonHidden_def)
qed

lemma addFilesSeq_ok:
  assumes "\<forall>(draws, newFiles)\<in>set calls. \<forall>f\<in>set (nonHidden newFiles). \<not> rejects (rd f) \<and> \<not> rejects (ex f)"
  shows "files (addFilesSeq rd ex calls st) =
    files st @ concat (map (\<lambda>(draws, newFiles). newItems rd ex draws newFiles) calls)"
  using assms
proof (induction calls arbitrary: st)
  case Nil
  then show ?case by simp
next
  case (Cons c calls)
  obtain draws newFiles where c: "c = (draws, newFiles)" by (cases c)
  have ok: "\<forall>f\<in>set (nonHidden newFiles). \<not> rejects (rd f) \<and> \<not> rejects (ex f)"
    using Cons.prems c by simp
  have rest: "\<forall>(draws, newFiles)\<in>set calls. \<forall>f\<in>set (nonHidden newFiles). \<not> rejects (rd f) \<and> \<not> rejects (ex f)"
    using Cons.prems by simp
  show ?case
    unfolding c by (simp add: addFiles_ok [OF ok] Cons.IH [OF rest])
qed

lemma length_newItems [simp]: "length (newItems rd ex draws newFiles) = length (nonHidden newFiles)"
  by (simp add: newItems_def)

lemma name_newItems: "map name_f (newItems rd ex draws newFiles) = map name_in (nonHidden newFiles)"
proof -
  have "map name_f (newItems rd ex draws newFiles) =
        map (name_in \<circ> snd) (zip [0..<length (nonHidden newFiles)] (nonHidden newFiles))"
    by (simp add: newItems_def pendingItem_def case_prod_beta o_def)
  also have "\<dots> = map name_in (nonHidden newFiles)"
    by (simp flip: map_map)
  finally show ?thesis .
qed

lemma pending_newItems:
  "\<forall>x\<in>set (newItems rd ex draws newFiles). status x = PENDING \<and> result x = None \<and> errorMessage x = None"
  by (auto simp: newItems_def pendingItem_def)

lemma nonHidden_append [simp]: "nonHidden (xs @ ys) = nonHidden xs @ nonHidden ys"
  by (simp add: nonHidden_def)

lemma names_of_calls:
  "map name_f (concat (map (\<lambda>(draws, newFiles). newItems rd ex draws newFiles) calls)) =
   map name_in (nonHidden (concat (map snd calls)))"
  by (induction calls) (auto simp: name_newItems nonHidden_def)

lemma pending_of_calls:
  "\<forall>x\<in>set (concat (map (\<lambda>(draws, newFiles). newItems rd ex draws newFiles) calls)).
     status x = PENDING \<and> result x = None \<and> errorMessage x = None"
  using pending_newItems by fastforce



section \<open>A rejecting extraction service\<close>




section \<open>Ids\<close>

text \<open>
  C8 as stated fails: \<open>addFiles\<close> stores the string drawn from \<^verbatim>\<open>Math.random\<close> as the id and
  compares it with nothing. When two draws of one call yield the same nine characters, the
  store holds two files with the same id.
\<close>

theorem addFiles_duplicate_id_counterexample:
  "\<exists>st'. addFiles absentExtract absentExtract (\<lambda>k. ''k3j9x2a7q'')
            [exampleInput ''a.txt'', exampleInput ''b.txt''] (exampleStore []) = Inr st' \<and>
         map id_f (files st') = [''k3j9x2a7q'', ''k3j9x2a7q''] \<and>
         \<not> distinct (map id_f (files st'))"
  by (simp add: addFiles_def Let_def absentExtract_def exampleInput_def startsWithDot_def
      setFilesAppend_def exampleStore_def)

lemma ids_newItems:
  "map id_f (newItems rd ex draws newFiles) = map draws [0..<length (nonHidden newFiles)]"
proof -
  have "map id_f (newItems rd ex draws newFiles) =
        map (draws \<circ> fst) (zip [0..<length (nonHidden newFiles)] (nonHidden newFiles))"
    by (simp add: newItems_def pendingItem_def case_prod_beta o_def)
  also have "\<dots> = map draws [0..<length (nonHidden newFiles)]"
    by (simp flip: map_map)
  finally show ?thesis .
qed

lemma ids_updateFileStatus [simp]:
  "map id_f (files (updateFileStatus i s r e st)) = map id_f (files st)"
  by (simp add: o_def if_distrib cong: if_cong)

lemma ids_settle [simp]: "map id_f (files (settle i outcome st)) = map id_f (files st)"
  by (simp add: settle_def split: sum.splits)

lemma ids_gradeLoop_quiet:
  "\<forall>t\<in>set (gradeLoop g rub sets (\<lambda>k. []) k fs st). map id_f (files t) = map id_f (files st)"
proof (induction fs arbitrary: st k)
  case Nil
  then show ?case by simp
next
  case (Cons f fs)
  let ?s1 = "updateFileStatus (id_f f) PROCESSING None None st"
  let ?s2 = "settle (id_f f) (g f rub sets) ?s1"
  have "\<forall>t\<in>set (gradeLoop g rub sets (\<lambda>k. []) (Suc k) fs ?s2). map id_f (files t) = map id_f (files ?s2)"
    by (rule Cons.IH)
  then show ?case by (simp add: Let_def)
qed

lemma ids_startBatch_quiet:
  "\<forall>t\<in>set (startBatchGrading g (\<lambda>k. []) st). map id_f (files t) = map id_f (files st)"
proof -
  let ?s0 = "setIsGrading True st"
  let ?tr = "gradeLoop g (rubric st) (settings st) (\<lambda>k. []) 0 (filter eligible (files st)) ?s0"
  have tr: "\<forall>t\<in>set ?tr. map id_f (files t) = map id_f (files st)"
    using ids_gradeLoop_quiet [of g "rubric st" "settings st" 0 "filter eligible (files st)" ?s0]
    by simp
  have "finalStore ?s0 ?tr = ?s0 \<or> finalStore ?s0 ?tr \<in> set ?tr"
    by (rule finalStore_in_trace)
  then have "map id_f (files (finalStore ?s0 ?tr)) = map id_f (files st)"
    using tr by auto
  with tr show ?thesis
    unfolding startBatch_trace_shape by simp
qed

lemma ids_reGradeFile_quiet:
  "\<forall>t\<in>set (reGradeFile g [] i st). map id_f (files t) = map id_f (files st)"
  by (cases "find (\<lambda>f. id_f f = i) (files st)") (simp_all add: reGradeFile_def Let_def)

lemma distinct_removeFile:
  "distinct (map id_f (files st)) \<Longrightarrow> distinct (map id_f (files (removeFile i st)))"
  by (simp add: distinct_map_filter)

lemma distinct_addFiles:
  assumes "distinct (map id_f (files st))"
    and "addFiles rd ex draws newFiles st = Inr st'"
    and "inj_on draws {0..<length (nonHidden newFiles)}"
    and "\<forall>k<length (nonHidden newFiles). draws k \<notin> id_f ` set (files st)"
  shows "distinct (map id_f (files st'))"
proof -
  have ok: "\<forall>f\<in>set (nonHidden newFiles). \<not> rejects (rd f) \<and> \<not> rejects (ex f)"
  proof (rule ccontr)
    assume "\<not> ?thesis"
    then have "\<exists>e. addFiles rd ex draws newFiles st = Inl e"
      by (intro addFiles_fault) blast
    with assms(2) show False by simp
  qed
  have st': "files st' = files st @ newItems rd ex draws newFiles"
    using assms(2) unfolding addFiles_ok [OF ok] by auto
  have "distinct (map draws [0..<length (nonHidden newFiles)])"
    using assms(3) by (simp add: distinct_map)
  moreover have "set (map id_f (files st)) \<inter> set (map draws [0..<length (nonHidden newFiles)]) = {}"
  proof -
    have "\<forall>k<length (nonHidden newFiles). \<forall>x\<in>set (files st). id_f x \<noteq> draws k"
      using assms(4) by (metis imageI)
    then show ?thesis by auto
  qed
  ultimately show ?thesis
    using assms(1) by (simp add: st' ids_newItems)
qed

text \<open>
  C8, amended. On a store with pairwise distinct ids: after a call of \<open>addFiles\<close> the ids are
  pairwise distinct provided that the strings drawn for the non-hidden inputs of the call
  are pairwise distinct and none of them is the id of a file of the store; \<open>removeFile\<close>,
  \<open>updateFileStatus\<close>, a batch run and a regrade never change an id, so they keep the ids
  pairwise distinct in every store of their trace.
\<close>

theorem distinct_ids_preserved:
  assumes "distinct (map id_f (files st))"
  shows "(\<forall>st'. addFiles readFileAsBase64 extractTextFromFile draws newFiles st = Inr st' \<and>
            inj_on draws {0..<length (nonHidden newFiles)} \<and>
            (\<forall>k<length (nonHidden newFiles). draws k \<notin> id_f ` set (files st)) \<longrightarrow>
            distinct (map id_f (files st'))) \<and>
         distinct (map id_f (files (removeFile i st))) \<and>
         distinct (map id_f (files (updateFileStatus i s r e st))) \<and>
         (\<forall>t\<in>set (startBatchGrading gradeHomework (\<lambda>k. []) st). distinct (map id_f (files t))) \<and>
         (\<forall>t\<in>set (reGradeFile gradeHomework [] i st). distinct (map id_f (files t)))"
proof -
  have "\<forall>t\<in>set (startBatchGrading gradeHomework (\<lambda>k. []) st). distinct (map id_f (files t))"
    using ids_startBatch_quiet [of gradeHomework st] assms by simp
  moreover have "\<forall>t\<in>set (reGradeFile gradeHomework [] i st). distinct (map id_f (files t))"
    using ids_reGradeFile_quiet [of gradeHomework i st] assms by simp
  moreover have "distinct (map id_f (files (updateFileStatus i s r e st)))"
    using assms by (simp only: ids_updateFileStatus)
  ultimately show ?thesis
    using distinct_removeFile [OF assms] distinct_addFiles [OF assms] by blast
qed

text \<open>Two inputs with different fresh draws, added to a store of one file.\<close>

theorem distinct_ids_preserved_witness:
  "map id_f (files (setFilesAppend
      (newItems absentExtract absentExtract (\<lambda>k. if k = 0 then ''r1'' else ''r2'')
         [exampleInput ''a.txt'', exampleInput ''b.txt''])
      (exampleStore [exampleFile ''x'' COMPLETED]))) = [''x'', ''r1'', ''r2''] \<and>
   distinct (map id_f (files (setFilesAppend
      (newItems absentExtract absentExtract (\<lambda>k. if k = 0 then ''r1'' else ''r2'')
         [exampleInput ''a.txt'', exampleInput ''b.txt''])
      (exampleStore [exampleFile ''x'' COMPLETED]))))"
proof -
  let ?st = "exampleStore [exampleFile ''x'' COMPLETED]"
  let ?draws = "\<lambda>k::nat. if k = 0 then ''r1'' else ''r2''"
  let ?new = "[exampleInput ''a.txt'', exampleInput ''b.txt'']"
  let ?st' = "setFilesAppend (newItems absentExtract absentExtract ?draws ?new) ?st"
  have up: "[0..<2] = [0, 1]"
    by (simp add: upt_rec)
  have n: "nonHidden ?new = ?new"
    by (simp add: nonHidden_def startsWithDot_def exampleInput_def)
  have d: "distinct (map id_f (files ?st))"
    by (simp add: exampleStore_def exampleFile_def)
  have "\<forall>f\<in>set (nonHidden ?new). \<not> rejects (absentExtract f) \<and> \<not> rejects (absentExtract f)"
    by (simp add: rejects_def absentExtract_def)
  then have run: "addFiles absentExtract absentExtract ?draws ?new ?st = Inr ?st'"
    by (rule addFiles_ok)
  have inj: "inj_on ?draws {0..<length (nonHidden ?new)}"
    unfolding n by (auto simp: inj_on_def)
  have fresh: "\<forall>k<length (nonHidden ?new). ?draws k \<notin> id_f ` set (files ?st)"
    by (simp add: exampleStore_def exampleFile_def)
  have "distinct (map id_f (files ?st'))"
    using distinct_ids_preserved [OF d, of absentExtract absentExtract ?draws ?new,
        THEN conjunct1, rule_format, of ?st'] run inj fresh
    by blast
  moreover have "map id_f (files ?st') = [''x'', ''r1'', ''r2'']"
    by (simp add: ids_newItems n exampleStore_def exampleFile_def up)
  ultimately show ?thesis by simp
qed

section \<open>Result and message exclude each other\<close>

text \<open>
  C3 as stated fails for \<open>updateFileStatus\<close> itself: it stores the status, the result and
  the message it is given, whatever the status is. Called with Processing, a result and a
  message on a Completed file, it leaves a Processing file that carries both.
\<close>

theorem updateFileStatus_exclusivity_counterexample:
  "storeInv (exampleStore [gradedFile]) \<and>
   map (\<lambda>f. (status f, result f, errorMessage f))
     (files (updateFileStatus ''a'' PROCESSING (Some exampleResult) (Some ''boom'')
        (exampleStore [gradedFile])))
     = [(PROCESSING, Some exampleResult, Some ''boom'')] \<and>
   \<not> storeInv (updateFileStatus ''a'' PROCESSING (Some exampleResult) (Some ''boom'')
        (exampleStore [gradedFile]))"
  by (simp add: storeInv_def itemInv_def exampleStore_def gradedFile_def exampleFile_def)

lemma inv_updateFileStatus:
  assumes "storeInv st" and "argsOK s r e"
  shows "storeInv (updateFileStatus i s r e st)"
  using assms by (auto simp: storeInv_def itemInv_def argsOK_def)

lemma inv_settle: "storeInv st \<Longrightarrow> storeInv (settle i outcome st)"
  by (cases outcome) (simp_all add: settle_def inv_updateFileStatus argsOK_def)

lemma inv_removeFile: "storeInv st \<Longrightarrow> storeInv (removeFile i st)"
  by (simp add: storeInv_def)

lemma inv_applyAction:
  assumes "storeInv st" and "actionOK a"
  shows "storeInv (applyAction a st)"
proof (cases a)
  case (SetFilesAppend ps)
  then show ?thesis using assms by (auto simp: storeInv_def)
next
  case (RemoveFile i)
  then show ?thesis using assms by (simp add: inv_removeFile)
next
  case (UpdateFileStatus i s r e)
  then show ?thesis using assms by (simp add: inv_updateFileStatus)
next
  case (UpdateSettings p)
  then show ?thesis using assms by (simp add: storeInv_def)
next
  case (SetRubric r)
  then show ?thesis using assms by (simp add: storeInv_def)
next
  case (SetIsGrading b)
  then show ?thesis using assms by (simp add: storeInv_def)
qed

lemma inv_runActions:
  assumes "storeInv st" and "\<forall>a\<in>set as. actionOK a"
  shows "\<forall>t\<in>set (runActions as st). storeInv t"
  using assms
proof (induction as arbitrary: st)
  case Nil
  then show ?case by simp
next
  case (Cons a as)
  have step: "storeInv (applyAction a st)"
    using Cons.prems by (simp add: inv_applyAction)
  then have "\<forall>t\<in>set (runActions as (applyAction a st)). storeInv t"
    using Cons.prems(2) by (intro Cons.IH) simp_all
  with step show ?case by simp
qed

lemma inv_finalStore:
  assumes "storeInv st" and "\<forall>t\<in>set tr. storeInv t"
  shows "storeInv (finalStore st tr)"
  using assms finalStore_in_trace [of st tr] by auto

lemma inv_gradeLoop:
  assumes "\<forall>k. \<forall>a\<in>set (env k). actionOK a" and "storeInv st"
  shows "\<forall>t\<in>set (gradeLoop g rub sets env k fs st). storeInv t"
  using assms(2)
proof (induction fs arbitrary: st k)
  case Nil
  then show ?case by simp
next
  case (Cons f fs)
  let ?s1 = "updateFileStatus (id_f f) PROCESSING None None st"
  let ?tr = "runActions (env k) ?s1"
  let ?s2 = "settle (id_f f) (g f rub sets) (finalStore ?s1 ?tr)"
  have s1: "storeInv ?s1"
    using Cons.prems by (simp add: inv_updateFileStatus argsOK_def)
  have tr: "\<forall>t\<in>set ?tr. storeInv t"
    using s1 assms(1) by (intro inv_runActions) simp_all
  have s2: "storeInv ?s2"
    using s1 tr by (intro inv_settle inv_finalStore)
  have "\<forall>t\<in>set (gradeLoop g rub sets env (Suc k) fs ?s2). storeInv t"
    using s2 by (rule Cons.IH)
  with s1 tr s2 show ?case by (auto simp: Let_def)
qed

lemma inv_startBatch:
  assumes "\<forall>k. \<forall>a\<in>set (env k). actionOK a" and "storeInv st"
  shows "\<forall>t\<in>set (startBatchGrading g env st). storeInv t"
proof -
  let ?s0 = "setIsGrading True st"
  let ?tr = "gradeLoop g (rubric st) (settings st) env 0 (filter eligible (files st)) ?s0"
  have s0: "storeInv ?s0"
    using assms(2) by (simp add: storeInv_def)
  have tr: "\<forall>t\<in>set ?tr. storeInv t"
    using assms(1) s0 by (rule inv_gradeLoop)
  have "storeInv (finalStore ?s0 ?tr)"
    using s0 tr by (rule inv_finalStore)
  then have "storeInv (setIsGrading False (finalStore ?s0 ?tr))"
    by (simp add: storeInv_def)
  with s0 tr show ?thesis
    unfolding startBatch_trace_shape by simp
qed

lemma inv_reGradeFile:
  assumes "\<forall>a\<in>set env. actionOK a" and "storeInv st"
  shows "\<forall>t\<in>set (reGradeFile g env i st). storeInv t"
proof (cases "find (\<lambda>f. id_f f = i) (files st)")
  case None
  then show ?thesis by (simp add: reGradeFile_def)
next
  case (Some fl)
  let ?s1 = "updateFileStatus i PROCESSING None None st"
  let ?tr = "runActions env ?s1"
  have s1: "storeInv ?s1"
    using assms(2) by (simp add: inv_updateFileStatus argsOK_def)
  have tr: "\<forall>t\<in>set ?tr. storeInv t"
    using s1 assms(1) by (rule inv_runActions)
  have "storeInv (settle i (g fl (rubric st) (settings st)) (finalStore ?s1 ?tr))"
    using s1 tr by (intro inv_settle inv_finalStore)
  with s1 tr Some show ?thesis
    by (simp add: reGradeFile_def Let_def)
qed

lemma addFiles_Inr:
  assumes "addFiles rd ex draws newFiles st = Inr st'"
  shows "st' = setFilesAppend (newItems rd ex draws newFiles) st"
proof -
  have ok: "\<forall>f\<in>set (nonHidden newFiles). \<not> rejects (rd f) \<and> \<not> rejects (ex f)"
  proof (rule ccontr)
    assume "\<not> ?thesis"
    then have "\<exists>e. addFiles rd ex draws newFiles st = Inl e"
      by (intro addFiles_fault) blast
    with assms show False by simp
  qed
  show ?thesis
    using assms unfolding addFiles_ok [OF ok] by simp
qed

lemma inv_addFiles:
  assumes "storeInv st" and "addFiles rd ex draws newFiles st = Inr st'"
  shows "storeInv st'"
proof -
  have "\<forall>x\<in>set (newItems rd ex draws newFiles). itemInv x"
    using pending_newItems [of rd ex draws newFiles] by (simp add: itemInv_def)
  then show ?thesis
    using assms(1) unfolding addFiles_Inr [OF assms(2)] by (auto simp: storeInv_def)
qed

lemma processing_clears:
  "\<forall>f\<in>set (files (updateFileStatus i PROCESSING None None st)).
     id_f f = i \<longrightarrow> status f = PROCESSING \<and> result f = None \<and> errorMessage f = None"
proof
  fix f assume "f \<in> set (files (updateFileStatus i PROCESSING None None st))"
  then have "f \<in> (\<lambda>x. if id_f x = i
                 then x\<lparr>status := PROCESSING, result := None, errorMessage := None\<rparr> else x) ` set (files st)"
    unfolding files_updateFileStatus set_map .
  then obtain x where
    f: "f = (if id_f x = i then x\<lparr>status := PROCESSING, result := None, errorMessage := None\<rparr> else x)"
    by blast
  show "id_f f = i \<longrightarrow> status f = PROCESSING \<and> result f = None \<and> errorMessage f = None"
    unfolding f by simp
qed

text \<open>
  C3, amended. \<open>updateFileStatus\<close> replaces status, result and message of the files of the
  given id by its three arguments in one update; an argument that is absent clears the
  field, so the call with Processing alone clears both. On a store that satisfies the
  invariant, the invariant holds again after \<open>removeFile\<close>, after \<open>addFiles\<close>, after every
  \<open>updateFileStatus\<close> call whose arguments are consistent with it (a result only with
  Completed, a message only with Error), and in every store of the trace of a batch run or of
  a regrade, whose own calls are all of this kind, as long as the interleaved updates are.
\<close>

theorem exclusivity_preserved:
  assumes "storeInv st"
  shows "storeInv (removeFile i st) \<and>
         (argsOK s r e \<longrightarrow> storeInv (updateFileStatus i s r e st)) \<and>
         (\<forall>st'. addFiles readFileAsBase64 extractTextFromFile draws newFiles st = Inr st' \<longrightarrow> storeInv st') \<and>
         ((\<forall>k. \<forall>a\<in>set (env k). actionOK a) \<longrightarrow>
            (\<forall>t\<in>set (startBatchGrading gradeHomework env st). storeInv t)) \<and>
         ((\<forall>a\<in>set env'. actionOK a) \<longrightarrow>
            (\<forall>t\<in>set (reGradeFile gradeHomework env' i st). storeInv t)) \<and>
         (\<forall>f\<in>set (files (updateFileStatus i PROCESSING None None st)).
            id_f f = i \<longrightarrow> status f = PROCESSING \<and> result f = None \<and> errorMessage f = None)"
proof -
  have 1: "storeInv (removeFile i st)"
    using assms by (rule inv_removeFile)
  have 2: "argsOK s r e \<longrightarrow> storeInv (updateFileStatus i s r e st)"
    using assms by (simp add: inv_updateFileStatus)
  have 3: "\<forall>st'. addFiles readFileAsBase64 extractTextFromFile draws newFiles st = Inr st' \<longrightarrow> storeInv st'"
    using assms inv_addFiles by blast
  have 4: "(\<forall>k. \<forall>a\<in>set (env k). actionOK a) \<longrightarrow>
            (\<forall>t\<in>set (startBatchGrading gradeHomework env st). storeInv t)"
    using assms inv_startBatch [of env st gradeHomework] by blast
  have 5: "(\<forall>a\<in>set env'. actionOK a) \<longrightarrow>
            (\<forall>t\<in>set (reGradeFile gradeHomework env' i st). storeInv t)"
    using assms inv_reGradeFile [of env' st gradeHomework i] by blast
  have 6: "\<forall>f\<in>set (files (updateFileStatus i PROCESSING None None st)).
            id_f f = i \<longrightarrow> status f = PROCESSING \<and> result f = None \<and> errorMessage f = None"
    by (rule processing_clears)
  from 1 2 3 4 5 6 show ?thesis by (intro conjI)
qed

text \<open>A removal, an Error update, and Processing set on a Completed file.\<close>

theorem exclusivity_preserved_witness:
  "storeInv (removeFile ''b'' (exampleStore [gradedFile, exampleFile ''b'' PENDING])) \<and>
   storeInv (updateFileStatus ''b'' ERROR None (Some ''rate limited'')
      (exampleStore [gradedFile, exampleFile ''b'' PENDING])) \<and>
   map (\<lambda>f. (status f, result f, errorMessage f))
     (files (updateFileStatus ''a'' PROCESSING None None
        (exampleStore [gradedFile, exampleFile ''b'' PENDING])))
     = [(PROCESSING, None, None), (PENDING, None, None)]"
proof -
  let ?st = "exampleStore [gradedFile, exampleFile ''b'' PENDING]"
  have inv: "storeInv ?st"
    by (simp add: storeInv_def itemInv_def exampleStore_def gradedFile_def exampleFile_def)
  have ok: "argsOK ERROR None (Some ''rate limited'')"
    by (simp add: argsOK_def)
  have "storeInv (removeFile ''b'' ?st)"
    using exclusivity_preserved [OF inv, of "''b''", THEN conjunct1] .
  moreover have "storeInv (updateFileStatus ''b'' ERROR None (Some ''rate limited'') ?st)"
    using exclusivity_preserved [OF inv, of "''b''" ERROR None "Some ''rate limited''",
        THEN conjunct2, THEN conjunct1, THEN mp, OF ok] .
  moreover have "map (\<lambda>f. (status f, result f, errorMessage f))
     (files (updateFileStatus ''a'' PROCESSING None None ?st))
     = [(PROCESSING, None, None), (PENDING, None, None)]"
    by (simp add: exampleStore_def gradedFile_def exampleFile_def)
  ultimately show ?thesis by simp
qed

section \<open>Settings\<close>


lemma updateSettings_fields:
  "apiKey (settings (updateSettings p st)) =
     (case apiKey_p p of None \<Rightarrow> apiKey (settings st) | Some v \<Rightarrow> v)"
  "modelProvider (settings (updateSettings p st)) =
     (case modelProvider_p p of None \<Rightarrow> modelProvider (settings st) | Some v \<Rightarrow> v)"
  "customBaseUrl (settings (updateSettings p st)) =
     (case customBaseUrl_p p of None \<Rightarrow> customBaseUrl (settings st) | Some v \<Rightarrow> v)"
  "modelName (settings (updateSettings p st)) =
     (case modelName_p p of None \<Rightarrow> modelName (settings st) | Some v \<Rightarrow> v)"
  by (simp_all add: updateSettings_def mergeSettings_def)

lemma updateSettings_rest:
  "files (updateSettings p st) = files st"
  "rubric (updateSettings p st) = rubric st"
  "isGrading (updateSettings p st) = isGrading st"
  by (simp_all add: updateSettings_def)

lemma handleProviderChange_valid:
  "modelProvider (settings (handleProviderChange provider st)) = provider \<and>
   validModel provider (modelName (settings (handleProviderChange provider st))) \<and>
   apiKey (settings (handleProviderChange provider st)) = apiKey (settings st)"
  by (cases provider)
    (simp_all add: handleProviderChange_def AVAILABLE_MODELS_def updateSettings_def
      mergeSettings_def validModel_def)



end
